theory Spec2Isabelle
  imports Main "HOL-Library.Word" "HOL-Library.Signed_Division"
begin

unbundle bit_operations_syntax

section \<open>Machine types and the constants of hardware.h\<close>

text \<open>
  The target is an 8-bit AVR: \<open>int16_t\<close> is a 16-bit two's complement value, \<open>uint8_t\<close>
  an 8-bit and \<open>uint32_t\<close> a 32-bit unsigned one. Words wrap around on \<open>+\<close>, \<open>-\<close> and
  \<open>*\<close>; signed comparisons are \<open><s\<close> and \<open><=s\<close>. The result of the C arithmetic on
  \<open>int16_t\<close> operands stored back into an \<open>int16_t\<close> is the 16-bit wrap-around of the
  mathematical result, which is what word arithmetic computes.
\<close>

type_synonym int8_t = "8 word"
type_synonym uint8_t = "8 word"
type_synonym int16_t = "16 word"
type_synonym uint32_t = "32 word"

text \<open>C's \<open>/\<close> on signed operands truncates towards zero.\<close>

definition sdiv16 :: "int16_t \<Rightarrow> int16_t \<Rightarrow> int16_t" where
  "sdiv16 a b = word_of_int (sint a sdiv sint b)"

text \<open>Arduino's \<open>bitRead(value, bit)\<close> is \<open>((value) >> (bit)) & 0x01\<close>.\<close>

definition bitRead :: "uint8_t \<Rightarrow> nat \<Rightarrow> uint8_t" where
  "bitRead v n = drop_bit n v AND 1"

definition HW_NEOPIXEL_ROWS :: nat where "HW_NEOPIXEL_ROWS = 8"
definition HW_NEOPIXEL_COLS :: nat where "HW_NEOPIXEL_COLS = 4"
definition HW_NEOPIXEL_NUMBER :: nat where
  "HW_NEOPIXEL_NUMBER = HW_NEOPIXEL_ROWS * HW_NEOPIXEL_COLS"

definition HW_NEOPIXEL_T1H :: nat where "HW_NEOPIXEL_T1H = 900"
definition HW_NEOPIXEL_T1L :: nat where "HW_NEOPIXEL_T1L = 600"
definition HW_NEOPIXEL_T0H :: nat where "HW_NEOPIXEL_T0H = 400"
definition HW_NEOPIXEL_T0L :: nat where "HW_NEOPIXEL_T0L = 900"
definition HW_NEOPIXEL_RES :: nat where "HW_NEOPIXEL_RES = 6000"

definition HW_ROTENC_A_BIT :: nat where "HW_ROTENC_A_BIT = 2"
definition HW_ROTENC_B_BIT :: nat where "HW_ROTENC_B_BIT = 3"
definition HW_ROTENC_BTN_BIT :: nat where "HW_ROTENC_BTN_BIT = 4"

definition HW_ROTENC_CYCLES_PER_DETENT :: int16_t where
  "HW_ROTENC_CYCLES_PER_DETENT = 4"

definition HW_BUTTON_SHORT_CLICK_MIN_TIME :: uint32_t where
  "HW_BUTTON_SHORT_CLICK_MIN_TIME = 20"
definition HW_BUTTON_LONG_CLICK_MIN_TIME :: uint32_t where
  "HW_BUTTON_LONG_CLICK_MIN_TIME = 500"

section \<open>The state of the device\<close>

datatype ButtonState = BUTTON_NONE | BUTTON_SHORT_CLICK | BUTTON_LONG_CLICK

text \<open>
  What the strip's data line sees: \<open>Pulse h l\<close> is one execution of the assembly block of
  \<open>sendBit\<close>, the line high for nominally \<open>h\<close> ns and then low for \<open>l\<close> ns;
  \<open>DelayUs n\<close> is a call \<open>delayMicroseconds(n)\<close> with the line low.
\<close>

datatype line_event = Pulse nat nat | DelayUs nat

text \<open>
  One record holds everything the two drivers read and write: the fields of the single
  \<open>RotEnc\<close> object, the function-local statics of its two interrupt handlers, the global
  interrupt enable flag (cleared by \<open>noInterrupts()\<close>, set by \<open>interrupts()\<close>) and the
  history of the neopixel data line.
\<close>

record device =
  counter :: int16_t
  counterMinLimit :: int16_t
  counterMaxLimit :: int16_t
  counterWrap :: bool
  buttonState :: ButtonState
  oldState :: uint8_t
  oldButtonState :: bool
  buttonPressTime :: uint32_t
  interruptsEnabled :: bool
  neopixelLine :: "line_event list"

definition noInterrupts :: "device \<Rightarrow> device" where
  "noInterrupts s = s\<lparr>interruptsEnabled := False\<rparr>"

definition interrupts :: "device \<Rightarrow> device" where
  "interrupts s = s\<lparr>interruptsEnabled := True\<rparr>"

section \<open>RotEnc (rotenc.h, rotenc.cpp)\<close>

definition INT16_T_MIN :: int16_t where "INT16_T_MIN = - 32768"
definition INT16_T_MAX :: int16_t where "INT16_T_MAX = 32767"

definition minLimitRange :: int16_t where
  "minLimitRange = sdiv16 INT16_T_MIN HW_ROTENC_CYCLES_PER_DETENT + 1"

definition maxLimitRange :: int16_t where
  "maxLimitRange = sdiv16 INT16_T_MAX HW_ROTENC_CYCLES_PER_DETENT - 1"

text \<open>The constructor \<open>RotEnc::RotEnc()\<close> assigns the five fields of the object.\<close>

definition RotEnc :: "device \<Rightarrow> device" where
  "RotEnc s = s\<lparr>counter := 0, counterMinLimit := minLimitRange,
     counterMaxLimit := maxLimitRange, counterWrap := False, buttonState := BUTTON_NONE\<rparr>"

text \<open>
  The device after static initialisation and the constructor: the statics
  \<open>oldState = 0\<close>, \<open>oldButtonState = true\<close>, \<open>buttonPressTime = 0\<close>, nothing sent to the
  strip yet. The interrupt flag \<open>ie\<close> is whatever the platform start-up left.
\<close>

definition initialDevice :: "bool \<Rightarrow> device" where
  "initialDevice ie = RotEnc \<lparr>counter = 0, counterMinLimit = 0, counterMaxLimit = 0,
     counterWrap = False, buttonState = BUTTON_NONE, oldState = 0, oldButtonState = True,
     buttonPressTime = 0, interruptsEnabled = ie, neopixelLine = []\<rparr>"

definition getCounter :: "device \<Rightarrow> int16_t \<times> device" where
  "getCounter s =
     (let s1 = noInterrupts s;
          retVal = sdiv16 (counter s1) HW_ROTENC_CYCLES_PER_DETENT;
          s2 = interrupts s1
      in (retVal, s2))"

definition setCounter :: "int16_t \<Rightarrow> int16_t \<Rightarrow> int16_t \<Rightarrow> bool \<Rightarrow> device \<Rightarrow> bool \<times> device" where
  "setCounter counterValue minLimit maxLimit wrap s =
     (if maxLimit <=s minLimit then (False, s)
      else
        let minLimit1 = (if minLimit <s minLimitRange then minLimitRange else minLimit);
            maxLimit1 = (if maxLimitRange <s maxLimit then maxLimitRange else maxLimit);
            counterValue1 = (if maxLimit1 <s counterValue then maxLimit1 else counterValue);
            counterValue2 = (if counterValue1 <s minLimit1 then minLimit1 else counterValue1);
            s1 = noInterrupts s;
            s2 = s1\<lparr>counter := counterValue2 * HW_ROTENC_CYCLES_PER_DETENT\<rparr>;
            s3 = s2\<lparr>counterMinLimit := minLimit1 * HW_ROTENC_CYCLES_PER_DETENT\<rparr>;
            s4 = s3\<lparr>counterMaxLimit := maxLimit1 * HW_ROTENC_CYCLES_PER_DETENT\<rparr>;
            s5 = s4\<lparr>counterWrap := wrap\<rparr>
        in (True, interrupts s5))"

text \<open>
  \<open>encoderInterruptHandler\<close>. The table holds \<open>int8_t\<close> values; \<open>- 1\<close> is the byte 255,
  read back as \<open>int8_t\<close>.
\<close>

definition statesTable :: "int8_t list" where
  "statesTable = [0, - 1, 1, 0, 1, 0, 0, - 1, - 1, 0, 0, 1, 0, 1, - 1, 0]"

definition fourLowestBits :: uint8_t where "fourLowestBits = 15"

text \<open>
  Lines 106 to 108: the history register is shifted left by two, the sample of lines B
  and A (read from the input port \<open>pind\<close>) is or-ed in, and the four lowest bits are kept.
  The two reads of the port in line 107 are taken to see the same port value.
\<close>

definition encoderSample :: "uint8_t \<Rightarrow> uint8_t" where
  "encoderSample pind =
     push_bit 1 (bitRead pind HW_ROTENC_B_BIT) OR bitRead pind HW_ROTENC_A_BIT"

definition nextOldState :: "uint8_t \<Rightarrow> uint8_t \<Rightarrow> uint8_t" where
  "nextOldState pind old =
     (let o1 = push_bit 2 old;
          o2 = o1 OR encoderSample pind
      in o2 AND fourLowestBits)"

text \<open>Line 109: \<open>pgm_read_byte(&statesTable[oldState])\<close>.\<close>

definition lookupIncrement :: "uint8_t \<Rightarrow> int8_t" where
  "lookupIncrement st = statesTable ! unat st"

text \<open>Lines 110 to 124: the two limit checks, then \<open>counter += increment\<close>.\<close>

definition applyIncrement :: "int8_t \<Rightarrow> device \<Rightarrow> device" where
  "applyIncrement increment s =
     (let (s1, increment1) =
            (if counter s = counterMaxLimit s \<and> 0 <s increment
             then ((if counterWrap s then s\<lparr>counter := counterMinLimit s\<rparr>
                    else s\<lparr>counter := counterMaxLimit s\<rparr>), 0)
             else (s, increment));
          (s2, increment2) =
            (if counter s1 = counterMinLimit s1 \<and> increment1 <s 0
             then ((if counterWrap s1 then s1\<lparr>counter := counterMaxLimit s1\<rparr>
                    else s1\<lparr>counter := counterMinLimit s1\<rparr>), 0)
             else (s1, increment1))
      in s2\<lparr>counter := counter s2 + scast increment2\<rparr>)"

definition encoderInterruptHandler :: "uint8_t \<Rightarrow> device \<Rightarrow> device" where
  "encoderInterruptHandler pind s =
     (let s1 = s\<lparr>oldState := nextOldState pind (oldState s)\<rparr>;
          increment = lookupIncrement (oldState s1)
      in applyIncrement increment s1)"

text \<open>
  \<open>buttonInterruptHandler\<close>; \<open>pind\<close> is the input port and \<open>now\<close> the value of
  \<open>millis()\<close> at the call. The subtraction and both comparisons are unsigned 32-bit.
\<close>

definition buttonInterruptHandler :: "uint8_t \<Rightarrow> uint32_t \<Rightarrow> device \<Rightarrow> device" where
  "buttonInterruptHandler pind now s =
     (let currentButtonState = bitRead pind HW_ROTENC_BTN_BIT;
          s1 = (if currentButtonState = 0 \<and> oldButtonState s
                then s\<lparr>buttonPressTime := now\<rparr> else s);
          s2 = (if currentButtonState \<noteq> 0 \<and> \<not> oldButtonState s1
                then
                  let buttonHoldTime = now - buttonPressTime s1;
                      t1 = (if HW_BUTTON_SHORT_CLICK_MIN_TIME < buttonHoldTime
                            then s1\<lparr>buttonState := BUTTON_SHORT_CLICK\<rparr> else s1);
                      t2 = (if HW_BUTTON_LONG_CLICK_MIN_TIME < buttonHoldTime
                            then t1\<lparr>buttonState := BUTTON_LONG_CLICK\<rparr> else t1)
                  in t2
                else s1)
      in s2\<lparr>oldButtonState := (currentButtonState \<noteq> 0)\<rparr>)"

definition getButtonState :: "device \<Rightarrow> ButtonState \<times> device" where
  "getButtonState s =
     (let s1 = noInterrupts s;
          tempState = buttonState s1;
          s2 = s1\<lparr>buttonState := BUTTON_NONE\<rparr>;
          s3 = interrupts s2
      in (tempState, s3))"

text \<open>The interrupt service routine called once for each port sample of a list.\<close>

fun runEncoder :: "uint8_t list \<Rightarrow> device \<Rightarrow> device" where
  "runEncoder [] s = s"
| "runEncoder (p # ps) s = runEncoder ps (encoderInterruptHandler p s)"

section \<open>Neopixel (neopixel.h, neopixel.cpp)\<close>

definition sendBit :: "bool \<Rightarrow> device \<Rightarrow> device" where
  "sendBit bitValue s =
     (if bitValue
      then s\<lparr>neopixelLine := neopixelLine s @ [Pulse HW_NEOPIXEL_T1H HW_NEOPIXEL_T1L]\<rparr>
      else s\<lparr>neopixelLine := neopixelLine s @ [Pulse HW_NEOPIXEL_T0H HW_NEOPIXEL_T0L]\<rparr>)"

text \<open>The loop of \<open>sendByte\<close>, with the number of iterations still to run.\<close>

fun sendByte_loop :: "nat \<Rightarrow> uint8_t \<Rightarrow> device \<Rightarrow> device" where
  "sendByte_loop 0 input s = s"
| "sendByte_loop (Suc n) input s =
     sendByte_loop n (push_bit 1 input) (sendBit (bitRead input 7 \<noteq> 0) s)"

definition sendByte :: "uint8_t \<Rightarrow> device \<Rightarrow> device" where
  "sendByte input s = sendByte_loop 8 input s"

definition sendRgb :: "uint8_t \<Rightarrow> uint8_t \<Rightarrow> uint8_t \<Rightarrow> device \<Rightarrow> device" where
  "sendRgb r g b s = sendByte b (sendByte r (sendByte g s))"

definition nanosecPerMiscrosec :: nat where "nanosecPerMiscrosec = 1000"

definition show_frame :: "device \<Rightarrow> device" where
  "show_frame s =
     s\<lparr>neopixelLine := neopixelLine s @ [DelayUs (HW_NEOPIXEL_RES div nanosecPerMiscrosec + 1)]\<rparr>"

text \<open>The loop of \<open>setUniformColour\<close>, with the number of pixels still to send.\<close>

fun setUniformColour_loop :: "nat \<Rightarrow> uint8_t \<Rightarrow> uint8_t \<Rightarrow> uint8_t \<Rightarrow> device \<Rightarrow> device" where
  "setUniformColour_loop 0 r g b s = s"
| "setUniformColour_loop (Suc n) r g b s = setUniformColour_loop n r g b (sendRgb r g b s)"

definition setUniformColour :: "uint8_t \<Rightarrow> uint8_t \<Rightarrow> uint8_t \<Rightarrow> device \<Rightarrow> device" where
  "setUniformColour r g b s =
     (let s1 = noInterrupts s;
          s2 = setUniformColour_loop HW_NEOPIXEL_NUMBER r g b s1;
          s3 = show_frame s2
      in noInterrupts s3)"

text \<open>
  Modelled from the spec: \<open>Neopixel::setFromArray\<close> is declared in neopixel.h and
  defined nowhere in the sources. The specification says that it transmits per-pixel
  triplets from three channel arrays with the blocking and latch behaviour of
  \<open>setUniformColour\<close>, that the transmitter suspends interrupts for the frame and
  re-enables them after the latch wait, and that arrays shorter than the strip are
  outside the contract. A read beyond the end of an array is the result \<open>None\<close>.
  The call is written in its three phases, so that the device can be read at each of
  them: after the pixels sent so far, at the end of the latch wait, and at return.
\<close>

fun setFromArray_loop ::
  "nat list \<Rightarrow> uint8_t list \<Rightarrow> uint8_t list \<Rightarrow> uint8_t list \<Rightarrow> device \<Rightarrow> device option" where
  "setFromArray_loop [] r g b s = Some s"
| "setFromArray_loop (i # is) r g b s =
     (if i < length r \<and> i < length g \<and> i < length b
      then setFromArray_loop is r g b (sendRgb (r ! i) (g ! i) (b ! i) s)
      else None)"

text \<open>
  Modelled from the spec: the device during a call of \<open>setFromArray\<close>, after interrupts
  have been suspended and the first \<open>n\<close> pixels sent.
\<close>

definition setFromArray_pixels ::
  "nat \<Rightarrow> uint8_t list \<Rightarrow> uint8_t list \<Rightarrow> uint8_t list \<Rightarrow> device \<Rightarrow> device option" where
  "setFromArray_pixels n r g b s = setFromArray_loop [0..<n] r g b (noInterrupts s)"

text \<open>
  Modelled from the spec: the device during a call of \<open>setFromArray\<close> at the end of the
  latch wait, all pixels of the strip sent and interrupts not yet re-enabled.
\<close>

definition setFromArray_frame ::
  "uint8_t list \<Rightarrow> uint8_t list \<Rightarrow> uint8_t list \<Rightarrow> device \<Rightarrow> device option" where
  "setFromArray_frame r g b s =
     (case setFromArray_pixels HW_NEOPIXEL_NUMBER r g b s of
        None \<Rightarrow> None
      | Some s2 \<Rightarrow> Some (show_frame s2))"

text \<open>
  Modelled from the spec: the whole call of \<open>setFromArray\<close>, which re-enables interrupts
  after the latch wait and returns.
\<close>

definition setFromArray :: "uint8_t list \<Rightarrow> uint8_t list \<Rightarrow> uint8_t list \<Rightarrow> device \<Rightarrow> device option" where
  "setFromArray r g b s =
     (case setFromArray_frame r g b s of
        None \<Rightarrow> None
      | Some s3 \<Rightarrow> Some (interrupts s3))"

section \<open>Reading the data line\<close>

text \<open>The pulse that encodes one bit, and the bits of a byte from bit 7 down to bit 0.\<close>

definition bitPulse :: "bool \<Rightarrow> line_event" where
  "bitPulse v = (if v then Pulse HW_NEOPIXEL_T1H HW_NEOPIXEL_T1L
                 else Pulse HW_NEOPIXEL_T0H HW_NEOPIXEL_T0L)"

definition msbFirst :: "uint8_t \<Rightarrow> bool list" where
  "msbFirst x = map (\<lambda>i. bit x (7 - i)) [0..<8]"

definition triplet :: "uint8_t \<Rightarrow> uint8_t \<Rightarrow> uint8_t \<Rightarrow> line_event list" where
  "triplet r g b = map bitPulse (msbFirst g @ msbFirst r @ msbFirst b)"

section \<open>Properties the drivers are checked against\<close>

text \<open>The counter invariant: the counter lies between its two limits (signed).\<close>

definition counterInvariant :: "device \<Rightarrow> bool" where
  "counterInvariant s = (counterMinLimit s <=s counter s \<and> counter s <=s counterMaxLimit s)"

text \<open>A value clamped into the signed range from \<open>lo\<close> to \<open>hi\<close>.\<close>

definition clamp16 :: "int16_t \<Rightarrow> int16_t \<Rightarrow> int16_t \<Rightarrow> int16_t" where
  "clamp16 lo hi v = (if v <s lo then lo else if hi <s v then hi else v)"

text \<open>
  The sample of the previous interrupt, as the history register holds it before the
  shift: its two lowest bits.
\<close>

definition previousSample :: "uint8_t \<Rightarrow> uint8_t" where
  "previousSample old = old AND 3"

text \<open>
  Port values for one full backward quadrature cycle starting from both lines low:
  the samples (B, A) are 01, 11, 10, 00, with line A on port bit 2 and line B on bit 3.
\<close>

definition backwardCycle :: "uint8_t list" where
  "backwardCycle = [4, 12, 8, 0]"

section \<open>Signed 16-bit arithmetic\<close>

lemma minLimitRange_eq: "minLimitRange = - 8191"
  by (simp add: minLimitRange_def sdiv16_def INT16_T_MIN_def HW_ROTENC_CYCLES_PER_DETENT_def
      signed_divide_int_def)

lemma maxLimitRange_eq: "maxLimitRange = 8190"
  by (simp add: maxLimitRange_def sdiv16_def INT16_T_MAX_def HW_ROTENC_CYCLES_PER_DETENT_def
      signed_divide_int_def)

lemma sint16_bounds:
  fixes c :: int16_t
  shows "- 32768 \<le> sint c" and "sint c < 32768"
  using sint_ge [of c] sint_lt [of c] by simp_all

lemma sint16_succ:
  fixes c m :: int16_t
  assumes "c <s m"
  shows "sint (c + 1) = sint c + 1"
proof -
  have "sint c < sint m" using assms by (simp add: word_sless_alt)
  moreover have "sint m < 32768" by (rule sint16_bounds)
  moreover have "- 32768 \<le> sint c" by (rule sint16_bounds)
  ultimately have "signed_take_bit 15 (sint c + 1) = sint c + 1"
    by (simp add: signed_take_bit_int_eq_self_iff)
  then show ?thesis by (simp add: sint_word_ariths)
qed

lemma sint16_pred:
  fixes c m :: int16_t
  assumes "m <s c"
  shows "sint (c - 1) = sint c - 1"
proof -
  have "sint m < sint c" using assms by (simp add: word_sless_alt)
  moreover have "sint c < 32768" by (rule sint16_bounds)
  moreover have "- 32768 \<le> sint m" by (rule sint16_bounds)
  ultimately have "signed_take_bit 15 (sint c - 1) = sint c - 1"
    by (simp add: signed_take_bit_int_eq_self_iff)
  then show ?thesis by (simp add: sint_word_ariths)
qed


text \<open>Scaling by the four sub-steps of a detent does not overflow inside the safe range.\<close>

lemma sint16_times_4:
  fixes c :: int16_t
  assumes "- 8192 \<le> sint c" "sint c \<le> 8191"
  shows "sint (c * 4) = sint c * 4"
proof -
  have "signed_take_bit 15 (sint c * 4) = sint c * 4"
    using assms by (simp add: signed_take_bit_int_eq_self_iff)
  then show ?thesis by (simp add: sint_word_ariths)
qed

lemma sdiv16_times_4:
  fixes c :: int16_t
  assumes "- 8192 \<le> sint c" "sint c \<le> 8191"
  shows "sdiv16 (c * 4) 4 = c"
proof -
  have "(sint c * 4) sdiv 4 = sint c"
    by (simp add: signed_divide_int_def abs_mult sgn_mult sgn_if)
  then show ?thesis
    using sint16_times_4 [OF assms] by (simp add: sdiv16_def)
qed

section \<open>Reconfiguration with setCounter\<close>

text \<open>
  Claim C3. \<open>setCounter\<close> reports failure exactly when \<open>minLimit >= maxLimit\<close> (signed
  comparison), and a failing call returns the device state it was given: counter, both
  limits, the wrap flag and everything else are unchanged.
\<close>

theorem setCounter_fails_iff:
  "(\<not> fst (setCounter v mn mx w s)) = (mx <=s mn) \<and>
   (\<not> fst (setCounter v mn mx w s) \<longrightarrow> snd (setCounter v mn mx w s) = s)"
  by (simp add: setCounter_def Let_def)

theorem setCounter_fails_iff_witness:
  "\<not> fst (setCounter 5 10 1 False (initialDevice True)) \<and>
   snd (setCounter 5 10 1 False (initialDevice True)) = initialDevice True"
  using setCounter_fails_iff [of 5 10 1 False "initialDevice True"]
  by (simp add: word_sle_eq)

text \<open>
  The constructor establishes the counter invariant, and so does every successful
  \<open>setCounter\<close> whose lower limit is not above the safe range and whose upper limit is
  not below it.
\<close>

lemma RotEnc_invariant: "counterInvariant (RotEnc s)"
  by (simp add: counterInvariant_def RotEnc_def minLimitRange_eq maxLimitRange_eq word_sle_eq)

lemma setCounter_invariant_safe:
  assumes "mn <s mx" "mn <=s maxLimitRange" "minLimitRange <=s mx"
  shows "counterInvariant (snd (setCounter v mn mx w s))"
proof -
  define mn1 where "mn1 = (if mn <s minLimitRange then minLimitRange else mn)"
  define mx1 where "mx1 = (if maxLimitRange <s mx then maxLimitRange else mx)"
  define v1 where "v1 = (if mx1 <s v then mx1 else v)"
  define v2 where "v2 = (if v1 <s mn1 then mn1 else v1)"
  from assms have a: "sint mn < sint mx" "sint mn \<le> 8190" "- 8191 \<le> sint mx"
    by (simp_all add: minLimitRange_eq maxLimitRange_eq word_sle_eq word_sless_alt)
  have mn1: "- 8191 \<le> sint mn1" "sint mn1 \<le> 8190"
    using a by (auto simp: mn1_def minLimitRange_eq word_sless_alt)
  have mx1: "- 8191 \<le> sint mx1" "sint mx1 \<le> 8190"
    using a by (auto simp: mx1_def maxLimitRange_eq word_sless_alt)
  have le: "sint mn1 \<le> sint mx1"
    using a by (auto simp: mn1_def mx1_def minLimitRange_eq maxLimitRange_eq word_sless_alt)
  have v2: "sint mn1 \<le> sint v2" "sint v2 \<le> sint mx1"
    using le by (auto simp: v2_def v1_def word_sless_alt)
  have t: "sint (mn1 * 4) = sint mn1 * 4" "sint (mx1 * 4) = sint mx1 * 4"
    "sint (v2 * 4) = sint v2 * 4"
    using mn1 mx1 v2 by (simp_all add: sint16_times_4)
  have ok: "\<not> mx <=s mn" using a by (simp add: word_sle_eq)
  have "snd (setCounter v mn mx w s) =
          s\<lparr>interruptsEnabled := True, counter := v2 * 4, counterMinLimit := mn1 * 4,
            counterMaxLimit := mx1 * 4, counterWrap := w\<rparr>"
    by (simp add: setCounter_def Let_def ok mn1_def mx1_def v1_def v2_def noInterrupts_def
        interrupts_def HW_ROTENC_CYCLES_PER_DETENT_def)
  then show ?thesis
    using t v2 by (simp add: counterInvariant_def word_sle_eq)
qed

text \<open>
  Claim C10. When both limits already lie in the safe range from \<open>minLimitRange\<close> to
  \<open>maxLimitRange\<close> and \<open>minLimit < maxLimit\<close>, \<open>setCounter\<close> succeeds and an immediate
  \<open>getCounter\<close> returns the value clamped into the two limits: multiplying by the
  sub-steps of a detent and dividing again (truncating) is the identity there.
\<close>

theorem setCounter_getCounter_roundtrip:
  assumes "minLimitRange <=s mn" "mx <=s maxLimitRange" "mn <s mx"
  shows "fst (setCounter v mn mx w s) \<and>
         fst (getCounter (snd (setCounter v mn mx w s))) = clamp16 mn mx v"
proof -
  from assms have a: "- 8191 \<le> sint mn" "sint mx \<le> 8190" "sint mn < sint mx"
    by (simp_all add: minLimitRange_eq maxLimitRange_eq word_sle_eq word_sless_alt)
  have b: "- 8192 \<le> sint (clamp16 mn mx v)" "sint (clamp16 mn mx v) \<le> 8191"
    using a by (auto simp: clamp16_def word_sless_alt)
  have c: "\<not> mx <=s mn" using a by (simp add: word_sle_eq)
  have d: "(if (if mx <s v then mx else v) <s mn then mn else (if mx <s v then mx else v))
             = clamp16 mn mx v"
    using a by (auto simp: clamp16_def word_sless_alt)
  have e: "\<not> mn <s minLimitRange" "\<not> maxLimitRange <s mx"
    using assms by (simp_all add: word_sle_eq word_sless_alt)
  show ?thesis
    using sdiv16_times_4 [OF b]
    by (simp add: setCounter_def getCounter_def Let_def c d e noInterrupts_def interrupts_def
        HW_ROTENC_CYCLES_PER_DETENT_def)
qed

theorem setCounter_getCounter_roundtrip_witness:
  "minLimitRange <=s - 10 \<and> 10 <=s maxLimitRange \<and> (- 10 :: int16_t) <s 10 \<and>
   fst (setCounter 50 (- 10) 10 False (initialDevice True)) \<and>
   fst (getCounter (snd (setCounter 50 (- 10) 10 False (initialDevice True)))) = 10"
proof -
  have h: "minLimitRange <=s - 10" "10 <=s maxLimitRange" "(- 10 :: int16_t) <s 10"
    by (simp_all add: minLimitRange_eq maxLimitRange_eq word_sle_eq word_sless_alt)
  from setCounter_getCounter_roundtrip [OF h, of 50 False "initialDevice True"] h
  show ?thesis by (simp add: clamp16_def word_sless_alt)
qed

text \<open>
  Claim C1. The counter invariant does not hold in every reachable state: the call
  \<open>setCounter(0, 8191, 8192, false)\<close> on the freshly constructed encoder succeeds, clamps
  only the upper limit (to 8190) and leaves the lower limit 8191 above it, so that the
  counter and \<open>counterMinLimit\<close> are both 32764 and \<open>counterMaxLimit\<close> is 32760.
\<close>

theorem setCounter_breaks_counterInvariant:
  "fst (setCounter 0 8191 8192 False (initialDevice True)) \<and>
   counter (snd (setCounter 0 8191 8192 False (initialDevice True))) = 32764 \<and>
   counterMinLimit (snd (setCounter 0 8191 8192 False (initialDevice True))) = 32764 \<and>
   counterMaxLimit (snd (setCounter 0 8191 8192 False (initialDevice True))) = 32760 \<and>
   \<not> counterInvariant (snd (setCounter 0 8191 8192 False (initialDevice True)))"
  by (simp add: setCounter_def initialDevice_def RotEnc_def noInterrupts_def interrupts_def
      minLimitRange_eq maxLimitRange_eq HW_ROTENC_CYCLES_PER_DETENT_def Let_def
      word_sle_eq word_sless_alt counterInvariant_def)

section \<open>The quadrature decoder\<close>

lemma word8_less_16_cases:
  fixes idx :: uint8_t
  assumes "idx < 16"
  shows "idx \<in> {0, 1, 2, 3, 4, 5, 6, 7, 8, 9, 10, 11, 12, 13, 14, 15}"
proof -
  from assms have "unat idx < 16" by (simp add: word_less_nat_alt)
  then have "unat idx \<in> {0, 1, 2, 3, 4, 5, 6, 7, 8, 9, 10, 11, 12, 13, 14, 15}"
    by simp arith
  then have "of_nat (unat idx) \<in>
      ((of_nat ` {0, 1, 2, 3, 4, 5, 6, 7, 8, 9, 10, 11, 12, 13, 14, 15}) :: uint8_t set)"
    by (rule imageI)
  then show ?thesis by simp
qed

text \<open>The masked history register always indexes inside the table.\<close>

lemma nextOldState_less: "nextOldState pind old < 16"
proof -
  have "nextOldState pind old \<le> 15"
    unfolding nextOldState_def Let_def fourLowestBits_def by (rule word_and_le1)
  then show ?thesis by unat_arith
qed

lemma lookupIncrement_values:
  "idx < 16 \<Longrightarrow> lookupIncrement idx = 0 \<or> lookupIncrement idx = 1 \<or> lookupIncrement idx = - 1"
  by (drule word8_less_16_cases) (auto simp: lookupIncrement_def statesTable_def)

lemma bitRead_of_bool: "bitRead v n = of_bool (bit v n)"
  unfolding bitRead_def
  by (rule bit_word_eqI) (auto simp: bit_simps)

lemma encoderSample_cases:
  "encoderSample pind = 0 \<or> encoderSample pind = 1 \<or>
   encoderSample pind = 2 \<or> encoderSample pind = 3"
  by (simp add: encoderSample_def bitRead_of_bool)

lemma previousSample_cases:
  "previousSample old = 0 \<or> previousSample old = 1 \<or>
   previousSample old = 2 \<or> previousSample old = 3"
proof -
  have le: "old AND 3 \<le> 3" by (rule word_and_le1)
  then have "old AND 3 < 16" by unat_arith
  from word8_less_16_cases [OF this] le show ?thesis
    unfolding previousSample_def by auto
qed

text \<open>
  The table index is the previous sample in bits 3 and 2 and the current sample in
  bits 1 and 0.
\<close>

lemma nextOldState_split:
  "nextOldState pind old = push_bit 2 (previousSample old) OR encoderSample pind"
proof -
  have m4: "(15 :: uint8_t) = mask 4" and m2: "(3 :: uint8_t) = mask 2"
    by (simp_all add: mask_eq_exp_minus_1)
  have "push_bit 2 old AND (15 :: uint8_t) = take_bit 4 (push_bit 2 old)"
    unfolding m4 by (simp only: take_bit_eq_mask)
  also have "\<dots> = push_bit 2 (take_bit 2 old)"
    by (simp only: take_bit_push_bit) simp
  also have "\<dots> = push_bit 2 (previousSample old)"
    unfolding previousSample_def m2 by (simp only: take_bit_eq_mask)
  finally have hi: "push_bit 2 old AND (15 :: uint8_t) = push_bit 2 (previousSample old)" .
  have lo: "encoderSample pind AND 15 = encoderSample pind"
    using encoderSample_cases [of pind] by auto
  have "nextOldState pind old = (push_bit 2 old AND 15) OR (encoderSample pind AND 15)"
    unfolding nextOldState_def Let_def fourLowestBits_def
    by (simp only: bit.conj_disj_distrib2)
  then show ?thesis by (simp only: hi lo)
qed

lemma glitch_lookupIncrement:
  assumes "previousSample old = encoderSample pind \<or>
           previousSample old XOR encoderSample pind = 3"
  shows "lookupIncrement (nextOldState pind old) = 0"
  using assms previousSample_cases [of old] encoderSample_cases [of pind]
  unfolding nextOldState_split
  by (auto simp: lookupIncrement_def statesTable_def)

lemma single_step_lookupIncrement:
  "(previousSample old XOR encoderSample pind = 1 \<or>
    previousSample old XOR encoderSample pind = 2) =
   (lookupIncrement (nextOldState pind old) \<noteq> 0)"
  using previousSample_cases [of old] encoderSample_cases [of pind]
  unfolding nextOldState_split
  by (auto simp: lookupIncrement_def statesTable_def)

subsection \<open>Applying the increment\<close>

lemma applyIncrement_zero: "applyIncrement 0 s = s"
  by (simp add: applyIncrement_def)

lemma applyIncrement_at_max:
  "counter s = counterMaxLimit s \<Longrightarrow> 0 <s inc \<Longrightarrow>
   applyIncrement inc s =
     s\<lparr>counter := (if counterWrap s then counterMinLimit s else counterMaxLimit s)\<rparr>"
  by (simp add: applyIncrement_def)

lemma applyIncrement_at_min:
  "counter s = counterMinLimit s \<Longrightarrow> inc <s 0 \<Longrightarrow>
   applyIncrement inc s =
     s\<lparr>counter := (if counterWrap s then counterMaxLimit s else counterMinLimit s)\<rparr>"
  by (auto simp: applyIncrement_def word_sless_alt)

lemma applyIncrement_fields:
  "counterMinLimit (applyIncrement inc s) = counterMinLimit s"
  "counterMaxLimit (applyIncrement inc s) = counterMaxLimit s"
  "counterWrap (applyIncrement inc s) = counterWrap s"
  "oldState (applyIncrement inc s) = oldState s"
  by (simp_all add: applyIncrement_def Let_def split: prod.splits)

lemma applyIncrement_up:
  "counter s \<noteq> counterMaxLimit s \<Longrightarrow> counter (applyIncrement 1 s) = counter s + 1"
  by (simp add: applyIncrement_def word_sless_alt)

lemma applyIncrement_down:
  "counter s \<noteq> counterMinLimit s \<Longrightarrow> counter (applyIncrement (- 1) s) = counter s - 1"
  by (simp add: applyIncrement_def word_sless_alt)

text \<open>The interrupt handler keeps the counter invariant.\<close>

lemma applyIncrement_invariant:
  assumes inv: "counterInvariant s"
    and inc: "inc = 0 \<or> inc = 1 \<or> inc = - 1"
  shows "counterInvariant (applyIncrement inc s)"
proof -
  from inv have lo: "sint (counterMinLimit s) \<le> sint (counter s)"
    and hi: "sint (counter s) \<le> sint (counterMaxLimit s)"
    by (simp_all add: counterInvariant_def word_sle_eq)
  from inc consider "inc = 0" | "inc = 1" | "inc = - 1" by blast
  then show ?thesis
  proof cases
    case 1
    then show ?thesis using inv by (simp add: applyIncrement_zero)
  next
    case 2
    show ?thesis
    proof (cases "counter s = counterMaxLimit s")
      case True
      then show ?thesis using inv 2
        by (simp add: applyIncrement_at_max counterInvariant_def word_sless_alt)
    next
      case False
      then have below: "counter s <s counterMaxLimit s"
        using hi by (simp add: word_sless_eq word_sle_eq)
      then have "sint (counter s + 1) = sint (counter s) + 1"
        by (rule sint16_succ)
      moreover have "sint (counter s) < sint (counterMaxLimit s)"
        using below by (simp add: word_sless_alt)
      ultimately show ?thesis using lo False 2
        by (simp add: counterInvariant_def word_sle_eq applyIncrement_up applyIncrement_fields)
    qed
  next
    case 3
    show ?thesis
    proof (cases "counter s = counterMinLimit s")
      case True
      then show ?thesis using inv 3
        by (simp add: applyIncrement_at_min counterInvariant_def word_sless_alt)
    next
      case False
      then have above: "counterMinLimit s <s counter s"
        using lo by (simp add: word_sless_eq word_sle_eq)
      then have "sint (counter s - 1) = sint (counter s) - 1"
        by (rule sint16_pred)
      moreover have "sint (counterMinLimit s) < sint (counter s)"
        using above by (simp add: word_sless_alt)
      ultimately show ?thesis using hi False 3
        by (simp add: counterInvariant_def word_sle_eq applyIncrement_down applyIncrement_fields)
    qed
  qed
qed

lemma encoderInterruptHandler_invariant:
  "counterInvariant s \<Longrightarrow> counterInvariant (encoderInterruptHandler pind s)"
  unfolding encoderInterruptHandler_def Let_def
  by (rule applyIncrement_invariant)
     (simp_all add: counterInvariant_def lookupIncrement_values nextOldState_less)

lemma runEncoder_invariant:
  "counterInvariant s \<Longrightarrow> counterInvariant (runEncoder ps s)"
  by (induction ps arbitrary: s) (simp_all add: encoderInterruptHandler_invariant)

subsection \<open>Steps at a limit\<close>

lemma backward_to_limit:
  "counter (runEncoder (concat (replicate 10 backwardCycle))
      (snd (setCounter 0 (- 10) 10 w (initialDevice ie)))) = - 40 \<and>
   counterMinLimit (runEncoder (concat (replicate 10 backwardCycle))
      (snd (setCounter 0 (- 10) 10 w (initialDevice ie)))) = - 40 \<and>
   fst (getCounter (runEncoder (concat (replicate 10 backwardCycle))
      (snd (setCounter 0 (- 10) 10 w (initialDevice ie))))) = - 10"
proof (cases w; cases ie)
  assume "w" "ie"
  then have "w = True" "ie = True" by simp_all
  then show ?thesis by (simp only:) code_simp
next
  assume "w" "\<not> ie"
  then have "w = True" "ie = False" by simp_all
  then show ?thesis by (simp only:) code_simp
next
  assume "\<not> w" "ie"
  then have "w = False" "ie = True" by simp_all
  then show ?thesis by (simp only:) code_simp
next
  assume "\<not> w" "\<not> ie"
  then have "w = False" "ie = False" by simp_all
  then show ?thesis by (simp only:) code_simp
qed

lemma backward_past_limit:
  "fst (getCounter (encoderInterruptHandler 4 (runEncoder (concat (replicate 10 backwardCycle))
      (snd (setCounter 0 (- 10) 10 w (initialDevice ie)))))) = (if w then 10 else - 10)"
proof (cases w; cases ie)
  assume "w" "ie"
  then have "w = True" "ie = True" by simp_all
  then show ?thesis by (simp only:) code_simp
next
  assume "w" "\<not> ie"
  then have "w = True" "ie = False" by simp_all
  then show ?thesis by (simp only:) code_simp
next
  assume "\<not> w" "ie"
  then have "w = False" "ie = True" by simp_all
  then show ?thesis by (simp only:) code_simp
next
  assume "\<not> w" "\<not> ie"
  then have "w = False" "ie = False" by simp_all
  then show ?thesis by (simp only:) code_simp
qed

text \<open>
  Claim C4. In \<open>encoderInterruptHandler\<close>, a positive looked-up increment at
  \<open>counterMaxLimit\<close> moves the counter to \<open>counterMinLimit\<close> when wrap is set and keeps it
  at \<open>counterMaxLimit\<close> otherwise, the increment being dropped; a negative increment at
  \<open>counterMinLimit\<close> does the same towards \<open>counterMaxLimit\<close>. After
  \<open>setCounter(0, -10, 10, wrap)\<close> on the fresh encoder, forty backward quadrature
  transitions bring \<open>getCounter()\<close> to -10; one more backward transition leaves it at -10
  without wrap and moves it to 10 with wrap.
\<close>

theorem encoderInterruptHandler_at_limit:
  "(counter s = counterMaxLimit s \<and> 0 <s lookupIncrement (nextOldState pind (oldState s)) \<longrightarrow>
      counter (encoderInterruptHandler pind s) =
        (if counterWrap s then counterMinLimit s else counterMaxLimit s)) \<and>
   (counter s = counterMinLimit s \<and> lookupIncrement (nextOldState pind (oldState s)) <s 0 \<longrightarrow>
      counter (encoderInterruptHandler pind s) =
        (if counterWrap s then counterMaxLimit s else counterMinLimit s)) \<and>
   fst (getCounter (runEncoder (concat (replicate 10 backwardCycle))
      (snd (setCounter 0 (- 10) 10 False (initialDevice ie))))) = - 10 \<and>
   fst (getCounter (encoderInterruptHandler 4 (runEncoder (concat (replicate 10 backwardCycle))
      (snd (setCounter 0 (- 10) 10 False (initialDevice ie)))))) = - 10 \<and>
   fst (getCounter (runEncoder (concat (replicate 10 backwardCycle))
      (snd (setCounter 0 (- 10) 10 True (initialDevice ie))))) = - 10 \<and>
   fst (getCounter (encoderInterruptHandler 4 (runEncoder (concat (replicate 10 backwardCycle))
      (snd (setCounter 0 (- 10) 10 True (initialDevice ie)))))) = 10"
  using backward_to_limit [of False ie] backward_to_limit [of True ie]
    backward_past_limit [of False ie] backward_past_limit [of True ie]
  by (simp add: encoderInterruptHandler_def applyIncrement_at_max applyIncrement_at_min)

theorem encoderInterruptHandler_at_limit_witness:
  "counter (snd (setCounter 10 (- 10) 10 True (initialDevice True))) =
     counterMaxLimit (snd (setCounter 10 (- 10) 10 True (initialDevice True))) \<and>
   0 <s lookupIncrement (nextOldState 8
     (oldState (snd (setCounter 10 (- 10) 10 True (initialDevice True))))) \<and>
   counter (encoderInterruptHandler 8 (snd (setCounter 10 (- 10) 10 True (initialDevice True)))) =
     - 40 \<and>
   counter (snd (setCounter (- 10) (- 10) 10 False (initialDevice True))) =
     counterMinLimit (snd (setCounter (- 10) (- 10) 10 False (initialDevice True))) \<and>
   lookupIncrement (nextOldState 4
     (oldState (snd (setCounter (- 10) (- 10) 10 False (initialDevice True))))) <s 0 \<and>
   counter (encoderInterruptHandler 4 (snd (setCounter (- 10) (- 10) 10 False (initialDevice True)))) =
     - 40"
proof -
  have up: "counter (snd (setCounter 10 (- 10) 10 True (initialDevice True))) =
      counterMaxLimit (snd (setCounter 10 (- 10) 10 True (initialDevice True)))"
    "0 <s lookupIncrement (nextOldState 8
      (oldState (snd (setCounter 10 (- 10) 10 True (initialDevice True)))))"
    "counterWrap (snd (setCounter 10 (- 10) 10 True (initialDevice True)))"
    "counterMinLimit (snd (setCounter 10 (- 10) 10 True (initialDevice True))) = - 40"
    by code_simp+
  have down: "counter (snd (setCounter (- 10) (- 10) 10 False (initialDevice True))) =
      counterMinLimit (snd (setCounter (- 10) (- 10) 10 False (initialDevice True)))"
    "lookupIncrement (nextOldState 4
      (oldState (snd (setCounter (- 10) (- 10) 10 False (initialDevice True))))) <s 0"
    "\<not> counterWrap (snd (setCounter (- 10) (- 10) 10 False (initialDevice True)))"
    "counterMinLimit (snd (setCounter (- 10) (- 10) 10 False (initialDevice True))) = - 40"
    by code_simp+
  from encoderInterruptHandler_at_limit
         [of "snd (setCounter 10 (- 10) 10 True (initialDevice True))" 8 True]
       encoderInterruptHandler_at_limit
         [of "snd (setCounter (- 10) (- 10) 10 False (initialDevice True))" 4 True]
       up down
  show ?thesis by simp
qed

text \<open>
  A whole further detent backwards (four transitions) from the lower limit with wrap set
  jumps to the upper limit on its first transition and then counts down three sub-steps,
  so that \<open>getCounter\<close> reads 9 after it.
\<close>

lemma backward_detent_past_limit:
  "fst (getCounter (runEncoder (concat (replicate 10 backwardCycle) @ [4, 12, 8, 0])
      (snd (setCounter 0 (- 10) 10 True (initialDevice True))))) = 9"
  by code_simp

text \<open>
  Claim C9. For every index below 16 whose previous sample (bits 3 and 2) equals the
  current sample (bits 1 and 0), or differs from it in both bits, the table gives the
  increment 0; a nonzero entry is 1 or -1 and occurs exactly at the single-step
  transitions. In the handler, an interrupt whose sample repeats the previous one or
  changes both lines leaves the counter unchanged.
\<close>

theorem statesTable_zero_unless_single_step:
  "(idx < 16 \<longrightarrow>
      (drop_bit 2 idx = idx AND 3 \<or> drop_bit 2 idx XOR (idx AND 3) = 3 \<longrightarrow>
         lookupIncrement idx = 0) \<and>
      (drop_bit 2 idx XOR (idx AND 3) = 1 \<or> drop_bit 2 idx XOR (idx AND 3) = 2 \<longrightarrow>
         lookupIncrement idx = 1 \<or> lookupIncrement idx = - 1) \<and>
      (lookupIncrement idx \<noteq> 0 \<longrightarrow>
         drop_bit 2 idx XOR (idx AND 3) = 1 \<or> drop_bit 2 idx XOR (idx AND 3) = 2)) \<and>
   (previousSample (oldState s) = encoderSample pind \<or>
    previousSample (oldState s) XOR encoderSample pind = 3 \<longrightarrow>
      lookupIncrement (nextOldState pind (oldState s)) = 0 \<and>
      counter (encoderInterruptHandler pind s) = counter s) \<and>
   (lookupIncrement (nextOldState pind (oldState s)) \<noteq> 0 \<longrightarrow>
      previousSample (oldState s) XOR encoderSample pind = 1 \<or>
      previousSample (oldState s) XOR encoderSample pind = 2)"
proof -
  have table: "idx < 16 \<longrightarrow>
      (drop_bit 2 idx = idx AND 3 \<or> drop_bit 2 idx XOR (idx AND 3) = 3 \<longrightarrow>
         lookupIncrement idx = 0) \<and>
      (drop_bit 2 idx XOR (idx AND 3) = 1 \<or> drop_bit 2 idx XOR (idx AND 3) = 2 \<longrightarrow>
         lookupIncrement idx = 1 \<or> lookupIncrement idx = - 1) \<and>
      (lookupIncrement idx \<noteq> 0 \<longrightarrow>
         drop_bit 2 idx XOR (idx AND 3) = 1 \<or> drop_bit 2 idx XOR (idx AND 3) = 2)"
  proof
    assume "idx < 16"
    from word8_less_16_cases [OF this]
    show "(drop_bit 2 idx = idx AND 3 \<or> drop_bit 2 idx XOR (idx AND 3) = 3 \<longrightarrow>
         lookupIncrement idx = 0) \<and>
      (drop_bit 2 idx XOR (idx AND 3) = 1 \<or> drop_bit 2 idx XOR (idx AND 3) = 2 \<longrightarrow>
         lookupIncrement idx = 1 \<or> lookupIncrement idx = - 1) \<and>
      (lookupIncrement idx \<noteq> 0 \<longrightarrow>
         drop_bit 2 idx XOR (idx AND 3) = 1 \<or> drop_bit 2 idx XOR (idx AND 3) = 2)"
      by (auto simp: lookupIncrement_def statesTable_def)
  qed
  have glitch: "previousSample (oldState s) = encoderSample pind \<or>
      previousSample (oldState s) XOR encoderSample pind = 3 \<longrightarrow>
      lookupIncrement (nextOldState pind (oldState s)) = 0 \<and>
      counter (encoderInterruptHandler pind s) = counter s"
    by (auto simp: encoderInterruptHandler_def applyIncrement_zero glitch_lookupIncrement)
  have step: "lookupIncrement (nextOldState pind (oldState s)) \<noteq> 0 \<longrightarrow>
      previousSample (oldState s) XOR encoderSample pind = 1 \<or>
      previousSample (oldState s) XOR encoderSample pind = 2"
    by (simp only: single_step_lookupIncrement) simp
  from table glitch step show ?thesis by (intro conjI)
qed

theorem statesTable_zero_unless_single_step_witness:
  "(3 :: uint8_t) < 16 \<and> drop_bit 2 (3 :: uint8_t) XOR (3 AND 3) = 3 \<and> lookupIncrement 3 = 0 \<and>
   (1 :: uint8_t) < 16 \<and> drop_bit 2 (1 :: uint8_t) XOR (1 AND 3) = 1 \<and> lookupIncrement 1 = - 1 \<and>
   previousSample (oldState (initialDevice True)) XOR encoderSample 12 = 3 \<and>
   counter (encoderInterruptHandler 12 (initialDevice True)) = counter (initialDevice True) \<and>
   lookupIncrement (nextOldState 4 (oldState (initialDevice True))) \<noteq> 0 \<and>
   previousSample (oldState (initialDevice True)) XOR encoderSample 4 = 1"
proof -
  have h: "(3 :: uint8_t) < 16" "drop_bit 2 (3 :: uint8_t) XOR (3 AND 3) = 3"
    "(1 :: uint8_t) < 16" "drop_bit 2 (1 :: uint8_t) XOR (1 AND 3) = 1"
    "previousSample (oldState (initialDevice True)) XOR encoderSample 12 = 3"
    "lookupIncrement (nextOldState 4 (oldState (initialDevice True))) \<noteq> 0"
    "previousSample (oldState (initialDevice True)) XOR encoderSample 4 = 1"
    "lookupIncrement 1 = - 1"
    by code_simp+
  from statesTable_zero_unless_single_step [of 3 "initialDevice True" 12]
       statesTable_zero_unless_single_step [of 1 "initialDevice True" 4] h
  show ?thesis by simp
qed

section \<open>The button\<close>

text \<open>
  Claim C7. On a release edge (the button bit reads high and the previous level was
  low) the held duration is \<open>millis()\<close> minus the recorded press time, as unsigned 32-bit
  values; the pending state becomes \<open>BUTTON_LONG_CLICK\<close> when the duration exceeds the
  long-click threshold, \<open>BUTTON_SHORT_CLICK\<close> when it exceeds the short-click threshold
  but not the long one, and is left as it was when the duration is at or below the
  short-click threshold.
\<close>

theorem buttonInterruptHandler_release:
  assumes "bitRead pind HW_ROTENC_BTN_BIT \<noteq> 0" "\<not> oldButtonState s"
  shows "(HW_BUTTON_LONG_CLICK_MIN_TIME < now - buttonPressTime s \<longrightarrow>
            buttonState (buttonInterruptHandler pind now s) = BUTTON_LONG_CLICK) \<and>
         (HW_BUTTON_SHORT_CLICK_MIN_TIME < now - buttonPressTime s \<and>
          \<not> HW_BUTTON_LONG_CLICK_MIN_TIME < now - buttonPressTime s \<longrightarrow>
            buttonState (buttonInterruptHandler pind now s) = BUTTON_SHORT_CLICK) \<and>
         (\<not> HW_BUTTON_SHORT_CLICK_MIN_TIME < now - buttonPressTime s \<longrightarrow>
            buttonState (buttonInterruptHandler pind now s) = buttonState s)"
proof -
  have "(20 :: uint32_t) < now - buttonPressTime s" if "500 < now - buttonPressTime s"
    using that by (rule less_trans [rotated]) simp
  then show ?thesis
    using assms
    by (auto simp: buttonInterruptHandler_def Let_def HW_BUTTON_SHORT_CLICK_MIN_TIME_def
        HW_BUTTON_LONG_CLICK_MIN_TIME_def)
qed

theorem buttonInterruptHandler_release_witness:
  "bitRead 16 HW_ROTENC_BTN_BIT \<noteq> 0 \<and>
   \<not> oldButtonState (buttonInterruptHandler 0 1000 (initialDevice True)) \<and>
   buttonState (buttonInterruptHandler 16 1100
     (buttonInterruptHandler 0 1000 (initialDevice True))) = BUTTON_SHORT_CLICK \<and>
   buttonState (buttonInterruptHandler 16 1501
     (buttonInterruptHandler 0 1000 (initialDevice True))) = BUTTON_LONG_CLICK \<and>
   buttonState (buttonInterruptHandler 16 1020
     (buttonInterruptHandler 0 1000 (initialDevice True))) = BUTTON_NONE"
proof -
  have h: "bitRead 16 HW_ROTENC_BTN_BIT \<noteq> 0"
    "\<not> oldButtonState (buttonInterruptHandler 0 1000 (initialDevice True))"
    "buttonPressTime (buttonInterruptHandler 0 1000 (initialDevice True)) = 1000"
    "buttonState (buttonInterruptHandler 0 1000 (initialDevice True)) = BUTTON_NONE"
    by (simp_all add: buttonInterruptHandler_def bitRead_def HW_ROTENC_BTN_BIT_def
        initialDevice_def RotEnc_def)
  from buttonInterruptHandler_release [OF h(1,2), of 1100]
       buttonInterruptHandler_release [OF h(1,2), of 1501]
       buttonInterruptHandler_release [OF h(1,2), of 1020] h
  show ?thesis
    by (simp add: HW_BUTTON_SHORT_CLICK_MIN_TIME_def HW_BUTTON_LONG_CLICK_MIN_TIME_def)
qed

text \<open>
  Claim C8. \<open>getButtonState\<close> returns the pending button state and resets it to
  \<open>BUTTON_NONE\<close>; whatever the first call returned, a second call with no button
  interrupt in between returns \<open>BUTTON_NONE\<close>.
\<close>

theorem getButtonState_read_and_clear:
  "fst (getButtonState s) = buttonState s \<and>
   snd (getButtonState s) = s\<lparr>buttonState := BUTTON_NONE, interruptsEnabled := True\<rparr> \<and>
   fst (getButtonState (snd (getButtonState s))) = BUTTON_NONE"
  by (simp add: getButtonState_def noInterrupts_def interrupts_def)

section \<open>The pixel transmitter\<close>

lemma sendBit_line: "neopixelLine (sendBit v s) = neopixelLine s @ [bitPulse v]"
  by (simp add: sendBit_def bitPulse_def)

lemma sendBit_irq: "interruptsEnabled (sendBit v s) = interruptsEnabled s"
  by (simp add: sendBit_def)

text \<open>The two pulses are different, so the line determines the bits sent.\<close>

lemma bitPulse_inject: "(bitPulse v = bitPulse w) = (v = w)"
  by (simp add: bitPulse_def HW_NEOPIXEL_T1H_def HW_NEOPIXEL_T0H_def)

lemma bitRead_7: "(bitRead x 7 \<noteq> 0) = bit x 7"
proof -
  have "bitRead x 7 = of_bool (bit x 7)"
    unfolding bitRead_def by (rule bit_word_eqI) (auto simp: bit_simps)
  then show ?thesis by simp
qed

lemma bit_shifted:
  fixes x :: uint8_t
  assumes "i < 7"
  shows "bit (push_bit 1 x) (7 - i) = bit x (7 - Suc i)"
proof -
  have "bit (push_bit 1 x) (7 - i) =
          (1 \<le> 7 - i \<and> possible_bit TYPE(uint8_t) (7 - i) \<and> bit x (7 - i - 1))"
    by (simp only: bit_push_bit_iff)
  then show ?thesis using assms by auto
qed

lemma sendByte_loop_line:
  "n \<le> 8 \<Longrightarrow> neopixelLine (sendByte_loop n x s) =
     neopixelLine s @ map (\<lambda>i. bitPulse (bit x (7 - i))) [0..<n]"
proof (induction n arbitrary: x s)
  case 0
  then show ?case by simp
next
  case (Suc n)
  have shifted: "map (\<lambda>i. bitPulse (bit (push_bit 1 x) (7 - i))) [0..<n] =
        map (\<lambda>i. bitPulse (bit x (7 - Suc i))) [0..<n]"
  proof (rule map_cong [OF refl])
    fix i assume "i \<in> set [0..<n]"
    then have "i < 7" using Suc.prems by simp
    then show "bitPulse (bit (push_bit 1 x) (7 - i)) = bitPulse (bit x (7 - Suc i))"
      by (simp only: bit_shifted)
  qed
  have "neopixelLine (sendByte_loop (Suc n) x s) =
        neopixelLine (sendBit (bit x 7) s) @
          map (\<lambda>i. bitPulse (bit (push_bit 1 x) (7 - i))) [0..<n]"
    using Suc.prems Suc.IH [of "push_bit 1 x" "sendBit (bit x 7) s"]
    by (simp only: sendByte_loop.simps bitRead_7)
  also have "\<dots> = neopixelLine s @
      bitPulse (bit x 7) # map (\<lambda>i. bitPulse (bit x (7 - Suc i))) [0..<n]"
    by (simp only: shifted sendBit_line) simp
  also have "bitPulse (bit x 7) # map (\<lambda>i. bitPulse (bit x (7 - Suc i))) [0..<n] =
       map (\<lambda>i. bitPulse (bit x (7 - i))) [0..<Suc n]"
    by (simp add: upt_rec [of 0 "Suc n"] map_Suc_upt [symmetric] del: upt_Suc)
  finally show ?case .
qed

lemma sendByte_line: "neopixelLine (sendByte x s) = neopixelLine s @ map bitPulse (msbFirst x)"
  by (simp add: sendByte_def sendByte_loop_line msbFirst_def comp_def)

lemma sendRgb_line: "neopixelLine (sendRgb r g b s) = neopixelLine s @ triplet r g b"
  by (simp add: sendRgb_def sendByte_line triplet_def)

lemma setUniformColour_loop_line:
  "neopixelLine (setUniformColour_loop n r g b s) =
     neopixelLine s @ concat (replicate n (triplet r g b))"
  by (induction n arbitrary: s) (simp_all add: sendRgb_line)

lemma sendByte_loop_irq: "interruptsEnabled (sendByte_loop n x s) = interruptsEnabled s"
  by (induction n arbitrary: x s) (simp_all add: sendBit_irq)

lemma sendRgb_irq: "interruptsEnabled (sendRgb r g b s) = interruptsEnabled s"
  by (simp add: sendRgb_def sendByte_def sendByte_loop_irq)

lemma setUniformColour_loop_irq:
  "interruptsEnabled (setUniformColour_loop n r g b s) = interruptsEnabled s"
  by (induction n arbitrary: s) (simp_all add: sendRgb_irq)

lemma msbFirst_bits:
  "msbFirst x = [bit x 7, bit x 6, bit x 5, bit x 4, bit x 3, bit x 2, bit x 1, bit x 0]"
  by (simp add: msbFirst_def upt_conv_Cons)

text \<open>
  Claim C5. \<open>setUniformColour(r, g, b)\<close> appends to the data line, for each of the
  \<open>HW_NEOPIXEL_NUMBER\<close> pixels of the strip, the pulses of the green byte, then the red
  byte, then the blue byte, each from bit 7 down to bit 0, followed by one wait of 7
  microseconds, which is not shorter than \<open>HW_NEOPIXEL_RES\<close> nanoseconds.
\<close>

theorem setUniformColour_line:
  "neopixelLine (setUniformColour r g b s) =
     neopixelLine s @ concat (replicate HW_NEOPIXEL_NUMBER (triplet r g b)) @ [DelayUs 7] \<and>
   triplet r g b = map bitPulse
     ([bit g 7, bit g 6, bit g 5, bit g 4, bit g 3, bit g 2, bit g 1, bit g 0] @
      [bit r 7, bit r 6, bit r 5, bit r 4, bit r 3, bit r 2, bit r 1, bit r 0] @
      [bit b 7, bit b 6, bit b 5, bit b 4, bit b 3, bit b 2, bit b 1, bit b 0]) \<and>
   HW_NEOPIXEL_RES \<le> 7 * nanosecPerMiscrosec"
proof -
  have "neopixelLine (setUniformColour r g b s) =
     neopixelLine s @ concat (replicate HW_NEOPIXEL_NUMBER (triplet r g b)) @ [DelayUs 7]"
    by (simp add: setUniformColour_def Let_def noInterrupts_def show_frame_def
        setUniformColour_loop_line HW_NEOPIXEL_RES_def nanosecPerMiscrosec_def)
  moreover have "triplet r g b = map bitPulse
     ([bit g 7, bit g 6, bit g 5, bit g 4, bit g 3, bit g 2, bit g 1, bit g 0] @
      [bit r 7, bit r 6, bit r 5, bit r 4, bit r 3, bit r 2, bit r 1, bit r 0] @
      [bit b 7, bit b 6, bit b 5, bit b 4, bit b 3, bit b 2, bit b 1, bit b 0])"
    by (simp only: triplet_def msbFirst_bits)
  moreover have "HW_NEOPIXEL_RES \<le> 7 * nanosecPerMiscrosec"
    by (simp add: HW_NEOPIXEL_RES_def nanosecPerMiscrosec_def)
  ultimately show ?thesis by (intro conjI)
qed

text \<open>Interrupts stay suspended from the first call of the frame to the latch wait.\<close>

lemma setUniformColour_frame_suspended:
  "\<not> interruptsEnabled (setUniformColour_loop n r g b (noInterrupts s)) \<and>
   \<not> interruptsEnabled (show_frame (setUniformColour_loop n r g b (noInterrupts s)))"
  by (simp add: setUniformColour_loop_irq noInterrupts_def show_frame_def)

text \<open>
  Claim C2. \<open>setUniformColour\<close> never re-enables interrupts: it calls \<open>noInterrupts()\<close>
  before the frame and \<open>noInterrupts()\<close> again after the latch wait, so interrupts are
  disabled when it returns, whatever the flag was at the call.
\<close>

theorem setUniformColour_leaves_interrupts_disabled:
  "\<not> interruptsEnabled (setUniformColour r g b s) \<and>
   \<not> interruptsEnabled (setUniformColour 0 0 0 (initialDevice True))"
  by (simp add: setUniformColour_def Let_def noInterrupts_def)

lemma setFromArray_loop_Some:
  "\<forall>i \<in> set is. i < length r \<and> i < length g \<and> i < length b \<Longrightarrow>
   \<exists>s'. setFromArray_loop is r g b s = Some s' \<and>
     neopixelLine s' =
       neopixelLine s @ concat (map (\<lambda>i. triplet (r ! i) (g ! i) (b ! i)) is) \<and>
     interruptsEnabled s' = interruptsEnabled s"
proof (induction "is" arbitrary: s)
  case Nil
  then show ?case by simp
next
  case (Cons a "is")
  from Cons.prems have rest: "\<forall>i \<in> set is. i < length r \<and> i < length g \<and> i < length b"
    by simp
  from Cons.IH [OF rest, of "sendRgb (r ! a) (g ! a) (b ! a) s"] Cons.prems
  show ?case by (auto simp: sendRgb_line sendRgb_irq)
qed

text \<open>With the same colour at every position the pixel loop is that of \<open>setUniformColour\<close>.\<close>

lemma setFromArray_loop_uniform:
  "\<forall>i \<in> set is. i < length r \<and> i < length g \<and> i < length b \<and>
                  r ! i = r0 \<and> g ! i = g0 \<and> b ! i = b0 \<Longrightarrow>
   setFromArray_loop is r g b s = Some (setUniformColour_loop (length is) r0 g0 b0 s)"
  by (induction "is" arbitrary: s) simp_all

lemma triplet_length: "length (triplet r g b) = 24"
  by (simp add: triplet_def msbFirst_def)

text \<open>
  Claim C6. When each of the three channel arrays has at least \<open>HW_NEOPIXEL_NUMBER\<close>
  elements, \<open>setFromArray\<close> returns and has appended to the data line, for each strip
  position in order, the green, red and blue bytes of that position, followed by the
  7 microsecond latch wait. It blocks as \<open>setUniformColour\<close> does: interrupts are
  suspended before the first pixel, they are still suspended after every pixel sent and
  at the end of the latch wait, and the call returns only after it; where the arrays hold
  one colour at every position, the device at the end of the latch wait is the very
  state in which \<open>setUniformColour\<close> ends its latch wait. After the latch wait
  \<open>setFromArray\<close> calls \<open>interrupts()\<close> and returns with interrupts enabled, where
  \<open>setUniformColour\<close> calls \<open>noInterrupts()\<close>.
\<close>

theorem setFromArray_line:
  assumes "HW_NEOPIXEL_NUMBER \<le> length r" "HW_NEOPIXEL_NUMBER \<le> length g"
    "HW_NEOPIXEL_NUMBER \<le> length b"
  shows "\<exists>s3 s'.
     setFromArray_frame r g b s = Some s3 \<and>
     setFromArray r g b s = Some s' \<and> s' = interrupts s3 \<and>
     neopixelLine s' = neopixelLine s @
        concat (map (\<lambda>i. triplet (r ! i) (g ! i) (b ! i)) [0..<HW_NEOPIXEL_NUMBER]) @
        [DelayUs 7] \<and>
     (\<forall>n \<le> HW_NEOPIXEL_NUMBER. \<exists>sn.
        setFromArray_pixels n r g b s = Some sn \<and>
        \<not> interruptsEnabled sn \<and>
        neopixelLine sn = neopixelLine s @
          concat (map (\<lambda>i. triplet (r ! i) (g ! i) (b ! i)) [0..<n])) \<and>
     \<not> interruptsEnabled s3 \<and>
     interruptsEnabled s' \<and>
     ((\<forall>i < HW_NEOPIXEL_NUMBER. r ! i = r0 \<and> g ! i = g0 \<and> b ! i = b0) \<longrightarrow>
        s3 = show_frame (setUniformColour_loop HW_NEOPIXEL_NUMBER r0 g0 b0 (noInterrupts s)) \<and>
        setUniformColour r0 g0 b0 s = noInterrupts s3)"
proof -
  have prefix: "\<exists>sn. setFromArray_pixels n r g b s = Some sn \<and>
        \<not> interruptsEnabled sn \<and>
        neopixelLine sn = neopixelLine s @
          concat (map (\<lambda>i. triplet (r ! i) (g ! i) (b ! i)) [0..<n])"
    if "n \<le> HW_NEOPIXEL_NUMBER" for n
  proof -
    have "\<forall>i \<in> set [0..<n]. i < length r \<and> i < length g \<and> i < length b"
      using assms that by auto
    from setFromArray_loop_Some [OF this, of "noInterrupts s"]
    show ?thesis by (auto simp: setFromArray_pixels_def noInterrupts_def)
  qed
  from prefix [of HW_NEOPIXEL_NUMBER] obtain s2 where
    s2: "setFromArray_pixels HW_NEOPIXEL_NUMBER r g b s = Some s2"
    and off: "\<not> interruptsEnabled s2"
    and line: "neopixelLine s2 = neopixelLine s @
          concat (map (\<lambda>i. triplet (r ! i) (g ! i) (b ! i)) [0..<HW_NEOPIXEL_NUMBER])"
    by auto
  have frame: "setFromArray_frame r g b s = Some (show_frame s2)"
    by (simp add: setFromArray_frame_def s2)
  have ret: "setFromArray r g b s = Some (interrupts (show_frame s2))"
    by (simp add: setFromArray_def frame)
  have line': "neopixelLine (interrupts (show_frame s2)) = neopixelLine s @
        concat (map (\<lambda>i. triplet (r ! i) (g ! i) (b ! i)) [0..<HW_NEOPIXEL_NUMBER]) @
        [DelayUs 7]"
    by (simp add: line interrupts_def show_frame_def HW_NEOPIXEL_RES_def nanosecPerMiscrosec_def)
  have latch: "\<not> interruptsEnabled (show_frame s2)"
    using off by (simp add: show_frame_def)
  have on: "interruptsEnabled (interrupts (show_frame s2))"
    by (simp add: interrupts_def)
  have uniform: "show_frame s2 =
          show_frame (setUniformColour_loop HW_NEOPIXEL_NUMBER r0 g0 b0 (noInterrupts s)) \<and>
        setUniformColour r0 g0 b0 s = noInterrupts (show_frame s2)"
    if u: "\<forall>i < HW_NEOPIXEL_NUMBER. r ! i = r0 \<and> g ! i = g0 \<and> b ! i = b0"
  proof -
    have "\<forall>i \<in> set [0..<HW_NEOPIXEL_NUMBER]. i < length r \<and> i < length g \<and> i < length b \<and>
                  r ! i = r0 \<and> g ! i = g0 \<and> b ! i = b0"
      using assms u by auto
    from setFromArray_loop_uniform [OF this, of "noInterrupts s"] s2
    have "s2 = setUniformColour_loop HW_NEOPIXEL_NUMBER r0 g0 b0 (noInterrupts s)"
      by (simp add: setFromArray_pixels_def)
    then show ?thesis by (simp add: setUniformColour_def Let_def)
  qed
  from frame ret line' prefix latch on uniform show ?thesis by blast
qed

theorem setFromArray_line_witness:
  "HW_NEOPIXEL_NUMBER \<le> length (map of_nat [0..<32] :: uint8_t list) \<and>
   (\<exists>s'. setFromArray (map of_nat [0..<32]) (map of_nat [100..<132]) (map of_nat [200..<232])
             (initialDevice False) = Some s' \<and>
      interruptsEnabled s' \<and>
      neopixelLine s' =
        concat (map (\<lambda>i. triplet (of_nat i) (of_nat (100 + i)) (of_nat (200 + i))) [0..<32]) @
        [DelayUs 7] \<and>
      take 24 (neopixelLine s') = triplet 0 100 200 \<and>
      take 24 (drop 24 (neopixelLine s')) = triplet 1 101 201) \<and>
   triplet 0 100 200 \<noteq> triplet 1 101 201 \<and>
   (\<exists>s5. setFromArray_pixels 5 (map of_nat [0..<32]) (map of_nat [100..<132])
             (map of_nat [200..<232]) (initialDevice True) = Some s5 \<and>
      \<not> interruptsEnabled s5) \<and>
   (\<exists>s3. setFromArray_frame (replicate 32 1) (replicate 32 2) (replicate 32 3)
             (initialDevice True) = Some s3 \<and>
      setFromArray (replicate 32 1) (replicate 32 2) (replicate 32 3) (initialDevice True)
             = Some (interrupts s3) \<and>
      setUniformColour 1 2 3 (initialDevice True) = noInterrupts s3 \<and>
      \<not> interruptsEnabled s3)"
proof -
  let ?r = "map of_nat [0..<32] :: uint8_t list"
  let ?g = "map of_nat [100..<132] :: uint8_t list"
  let ?b = "map of_nat [200..<232] :: uint8_t list"
  let ?px = "\<lambda>i. triplet (of_nat i) (of_nat (100 + i)) (of_nat (200 + i))"
  have n: "HW_NEOPIXEL_NUMBER = 32"
    by (simp add: HW_NEOPIXEL_NUMBER_def HW_NEOPIXEL_ROWS_def HW_NEOPIXEL_COLS_def)
  have h: "HW_NEOPIXEL_NUMBER \<le> length ?r" "HW_NEOPIXEL_NUMBER \<le> length ?g"
    "HW_NEOPIXEL_NUMBER \<le> length ?b"
    by (simp_all add: n)
  have u: "HW_NEOPIXEL_NUMBER \<le> length (replicate 32 (1 :: uint8_t))"
    "HW_NEOPIXEL_NUMBER \<le> length (replicate 32 (2 :: uint8_t))"
    "HW_NEOPIXEL_NUMBER \<le> length (replicate 32 (3 :: uint8_t))"
    by (simp_all add: n)
  have e: "neopixelLine (initialDevice False) = []"
    by (simp add: initialDevice_def RotEnc_def)
  have px: "map (\<lambda>i. triplet (?r ! i) (?g ! i) (?b ! i)) [0..<32] = map ?px [0..<32]"
  proof (rule map_cong [OF refl])
    fix i assume "i \<in> set [0..<32]"
    then have i: "i < 32 - 0" "i < 132 - 100" "i < 232 - 200" by simp_all
    have "?r ! i = of_nat (0 + i)" "?g ! i = of_nat (100 + i)" "?b ! i = of_nat (200 + i)"
      by (rule nth_map_upt [OF i(1)], rule nth_map_upt [OF i(2)], rule nth_map_upt [OF i(3)])
    then show "triplet (?r ! i) (?g ! i) (?b ! i) = ?px i" by (simp only: add_0)
  qed
  have split: "[0..<32] = 0 # 1 # [2..<32]"
    by (simp add: upt_conv_Cons)
  have front: "take 24 (concat (map ?px [0..<32]) @ [DelayUs 7]) = triplet 0 100 200"
    "take 24 (drop 24 (concat (map ?px [0..<32]) @ [DelayUs 7])) = triplet 1 101 201"
    by (simp_all only: split list.map concat.simps) (simp_all add: triplet_length)
  have differ: "triplet 0 100 200 \<noteq> triplet 1 101 201"
    by code_simp
  from setFromArray_line [OF h, of "initialDevice False" 0 0 0]
  obtain s' where "setFromArray ?r ?g ?b (initialDevice False) = Some s'"
    "interruptsEnabled s'"
    "neopixelLine s' = neopixelLine (initialDevice False) @
       concat (map (\<lambda>i. triplet (?r ! i) (?g ! i) (?b ! i)) [0..<HW_NEOPIXEL_NUMBER]) @ [DelayUs 7]"
    by blast
  then have first: "\<exists>s'. setFromArray ?r ?g ?b (initialDevice False) = Some s' \<and>
      interruptsEnabled s' \<and>
      neopixelLine s' = concat (map ?px [0..<32]) @ [DelayUs 7] \<and>
      take 24 (neopixelLine s') = triplet 0 100 200 \<and>
      take 24 (drop 24 (neopixelLine s')) = triplet 1 101 201"
    using front by (simp only: n e px append_Nil) simp
  from setFromArray_line [OF h, of "initialDevice True" 0 0 0]
  have "\<forall>k \<le> HW_NEOPIXEL_NUMBER. \<exists>sn.
        setFromArray_pixels k ?r ?g ?b (initialDevice True) = Some sn \<and>
        \<not> interruptsEnabled sn \<and>
        neopixelLine sn = neopixelLine (initialDevice True) @
          concat (map (\<lambda>i. triplet (?r ! i) (?g ! i) (?b ! i)) [0..<k])"
    by blast
  moreover have "5 \<le> HW_NEOPIXEL_NUMBER" by (simp add: n)
  ultimately have second: "\<exists>s5. setFromArray_pixels 5 ?r ?g ?b (initialDevice True) = Some s5 \<and>
      \<not> interruptsEnabled s5"
    by blast
  have "\<forall>i < HW_NEOPIXEL_NUMBER. replicate 32 (1 :: uint8_t) ! i = 1 \<and>
      replicate 32 (2 :: uint8_t) ! i = 2 \<and> replicate 32 (3 :: uint8_t) ! i = 3"
    by (simp add: n)
  with setFromArray_line [OF u, of "initialDevice True" 1 2 3]
  have third: "\<exists>s3. setFromArray_frame (replicate 32 1) (replicate 32 2) (replicate 32 3)
             (initialDevice True) = Some s3 \<and>
      setFromArray (replicate 32 1) (replicate 32 2) (replicate 32 3) (initialDevice True)
             = Some (interrupts s3) \<and>
      setUniformColour 1 2 3 (initialDevice True) = noInterrupts s3 \<and>
      \<not> interruptsEnabled s3"
    by blast
  from h(1) first differ second third show ?thesis by (intro conjI)
qed

end
